theory Spec2Isabelle
  imports Complex_Main "HOL-Library.Word" "HOL-Library.Sublist" "HOL-Library.Multiset"
begin

section \<open>The transparent price cache of \<^verbatim>\<open>cache.go\<close>\<close>

text \<open>
  The package wraps a slow \<^verbatim>\<open>PriceService\<close> in a cache keyed by item code. Two layers
  are embedded:
  \<^item> the functions as they are written (\<^verbatim>\<open>checkExpiration\<close>, \<^verbatim>\<open>NewTransparentCache\<close>,
    \<^verbatim>\<open>sequentialPriceSet\<close>, \<^verbatim>\<open>GetPriceFor\<close>), as state transformers on a world that
    holds the cache, the clock read by \<^verbatim>\<open>time.Now()\<close> and the log of upstream calls;
  \<^item> \<^verbatim>\<open>GetPricesFor\<close>, whose goroutines interleave: every goroutine is a program
    counter into \<^verbatim>\<open>processRequest\<close>/\<^verbatim>\<open>GetPriceFor\<close>, one atomic step per shared access,
    and the order of the steps is an explicit schedule. The schedule also says when the
    unlocked read of one goroutine overlaps the write of another, which kills the
    process.
\<close>

subsection \<open>Time\<close>

text \<open>
  A \<^verbatim>\<open>time.Time\<close> is an instant in nanoseconds (\<open>int\<close>); a \<^verbatim>\<open>time.Duration\<close> is an
  \<^verbatim>\<open>int64\<close> of nanoseconds. \<^verbatim>\<open>Time.Sub\<close> saturates at the largest and smallest
  duration instead of wrapping around.
\<close>

type_synonym Time = int
type_synonym Duration = "64 word"

definition maxDuration :: int where
  "maxDuration = 2 ^ 63 - 1"

definition minDuration :: int where
  "minDuration = - (2 ^ 63)"

definition Sub :: "Time \<Rightarrow> Time \<Rightarrow> Duration" where
  "Sub t u =
     (if t - u > maxDuration then word_of_int maxDuration
      else if t - u < minDuration then word_of_int minDuration
      else word_of_int (t - u))"

subsection \<open>Data\<close>

text \<open>
  A Go \<^verbatim>\<open>error\<close> is its message; \<open>None\<close> is \<^verbatim>\<open>nil\<close>. A \<^verbatim>\<open>float64\<close> price is only
  stored, copied and returned, never computed with: it is a \<open>real\<close>.
\<close>

type_synonym error = string

text \<open>\<^verbatim>\<open>type Price struct { price float64; creationDate time.Time }\<close>\<close>

record Price =
  price :: real
  creationDate :: Time

text \<open>
  \<^verbatim>\<open>type PriceRequest struct { price float64; err error }\<close>, the message a goroutine
  sends on the channel (the fields carry a prefix: \<open>price\<close> is taken by \<open>Price\<close>).
\<close>

record PriceRequest =
  req_price :: real
  req_err :: "error option"

text \<open>\<^verbatim>\<open>func (p *Price) checkExpiration(maxAge time.Duration) bool\<close>; \<open>now\<close> is what
  \<^verbatim>\<open>time.Now()\<close> returns.\<close>

definition checkExpiration :: "Price \<Rightarrow> Duration \<Rightarrow> Time \<Rightarrow> bool" where
  "checkExpiration p maxAge now = (Sub now (creationDate p) <s maxAge)"

text \<open>
  \<^verbatim>\<open>PriceService.GetPriceFor(itemCode) (float64, error)\<close> is the upstream collaborator, a
  black box. Its answer may depend on the calls made so far (first argument, oldest
  first) and on the item code.
\<close>

type_synonym PriceService = "string list \<Rightarrow> string \<Rightarrow> real \<times> error option"

record TransparentCache =
  actualPriceService :: PriceService
  maxAge :: Duration
  prices :: "string \<rightharpoonup> Price"

definition NewTransparentCache :: "PriceService \<Rightarrow> Duration \<Rightarrow> TransparentCache" where
  "NewTransparentCache svc age =
     \<lparr>actualPriceService = svc, maxAge = age, prices = Map.empty\<rparr>"

text \<open>
  The world a call runs in: the cache, the clock, and the log of the item codes the
  upstream service was asked for (oldest first).
\<close>

record world =
  cache :: TransparentCache
  clock :: Time
  calls :: "string list"

subsection \<open>Single-item lookup, run without interruption\<close>

text \<open>Line 54, \<^verbatim>\<open>c.prices[itemCode] = p\<close>.\<close>

definition storePrice :: "world \<Rightarrow> string \<Rightarrow> Price \<Rightarrow> world" where
  "storePrice w itemCode p =
     w\<lparr>cache := (cache w)\<lparr>prices := (prices (cache w))(itemCode \<mapsto> p)\<rparr>\<rparr>"

text \<open>
  \<^verbatim>\<open>sequentialPriceSet\<close>: lock \<^verbatim>\<open>m\<close>, write, unlock. Run alone, the lock is free before
  and after, and the write is all that is left.
\<close>

definition sequentialPriceSet :: "world \<Rightarrow> string \<Rightarrow> Price \<Rightarrow> world" where
  "sequentialPriceSet w itemCode p = storePrice w itemCode p"

text \<open>
  Lines 60 to 62: \<^verbatim>\<open>priceStruct, ok := c.prices[itemCode]\<close> and the test
  \<^verbatim>\<open>ok && priceStruct.checkExpiration(c.maxAge)\<close>; the entry when the test passes.
\<close>

definition freshPrice :: "world \<Rightarrow> string \<Rightarrow> Price option" where
  "freshPrice w itemCode =
     (case prices (cache w) itemCode of
        None \<Rightarrow> None
      | Some priceStruct \<Rightarrow>
          if checkExpiration priceStruct (maxAge (cache w)) (clock w)
          then Some priceStruct else None)"

text \<open>Line 67, \<^verbatim>\<open>fmt.Errorf("getting price from service : %v", err.Error())\<close>.\<close>

definition wrapError :: "error \<Rightarrow> error" where
  "wrapError e = ''getting price from service : '' @ e"

text \<open>
  \<^verbatim>\<open>GetPriceFor\<close> with no other goroutine running. \<open>d\<close> is the time the upstream call
  takes: the clock has advanced by \<open>d\<close> when the call returns, so the timestamp of line
  70 is taken \<open>d\<close> after the expiration check.
\<close>

definition GetPriceFor :: "nat \<Rightarrow> world \<Rightarrow> string \<Rightarrow> (real \<times> error option) \<times> world" where
  "GetPriceFor d w itemCode =
     (case freshPrice w itemCode of
        Some priceStruct \<Rightarrow> ((price priceStruct, None), w)
      | None \<Rightarrow>
          (let (p, err) = actualPriceService (cache w) (calls w) itemCode;
               w1 = w\<lparr>clock := clock w + int d, calls := calls w @ [itemCode]\<rparr>
           in case err of
                Some e \<Rightarrow> ((0, Some (wrapError e)), w1)
              | None \<Rightarrow>
                  ((p, None),
                   sequentialPriceSet w1 itemCode \<lparr>price = p, creationDate = clock w1\<rparr>)))"

subsection \<open>Goroutines\<close>

text \<open>
  Where a goroutine started by \<^verbatim>\<open>go processRequest(c, messages, itemCode)\<close> stands:
  \<^item> \<open>AtLookup\<close>: before line 60, the map read and the expiration check;
  \<^item> \<open>AtFetch\<close>: before line 65, the upstream call;
  \<^item> \<open>AtLock\<close>: before line 53, \<^verbatim>\<open>m.Lock()\<close>, holding the \<open>Price\<close> built at line 70;
  \<^item> \<open>AtWrite\<close>: before line 54, holding \<^verbatim>\<open>m\<close>;
  \<^item> \<open>AtUnlock\<close>: before line 55, holding \<^verbatim>\<open>m\<close> and the price to return;
  \<^item> \<open>AtSend\<close>: \<^verbatim>\<open>GetPriceFor\<close> has returned, before line 77, the send on the channel;
  \<^item> \<open>Finished\<close>: the goroutine has ended.
\<close>

datatype pc =
    AtLookup string
  | AtFetch string
  | AtLock string Price
  | AtWrite string Price
  | AtUnlock real
  | AtSend PriceRequest
  | Finished

text \<open>
  One call of \<^verbatim>\<open>GetPricesFor\<close> in flight: the world, the holder of the package's mutex
  \<^verbatim>\<open>m\<close> (the index of a goroutine), the goroutines in launch order, the buffer of
  the channel \<^verbatim>\<open>messages\<close> (oldest first), and whether the Go runtime has killed the
  process. The channel has room for one message per goroutine and each goroutine sends
  once, so a send never blocks.
\<close>

record system =
  world :: world
  mutex :: "nat option"
  goroutines :: "pc list"
  messages :: "PriceRequest list"
  crashed :: bool

definition goto :: "nat \<Rightarrow> pc \<Rightarrow> system \<Rightarrow> system" where
  "goto i g s = s\<lparr>goroutines := (goroutines s)[i := g]\<rparr>"

text \<open>
  The next atomic step of goroutine \<open>i\<close>. A goroutine waiting for a held mutex, a
  finished one and an index that names no goroutine leave the system as it is.

  Every access to the map is one step, also the read of line 60, which the code makes
  without the mutex. This is the read that does not overlap a write: it sees the map
  as it is before or after any write. The read that overlaps a write is the event
  \<open>Race\<close> below.
\<close>

definition step :: "nat \<Rightarrow> system \<Rightarrow> system" where
  "step i s =
     (if i < length (goroutines s) then
        (case goroutines s ! i of
           AtLookup itemCode \<Rightarrow>
             (case freshPrice (world s) itemCode of
                Some priceStruct \<Rightarrow>
                  goto i (AtSend \<lparr>req_price = price priceStruct, req_err = None\<rparr>) s
              | None \<Rightarrow> goto i (AtFetch itemCode) s)
         | AtFetch itemCode \<Rightarrow>
             (let w = world s;
                  (p, err) = actualPriceService (cache w) (calls w) itemCode;
                  s1 = s\<lparr>world := w\<lparr>calls := calls w @ [itemCode]\<rparr>\<rparr>
              in case err of
                   Some e \<Rightarrow> goto i (AtSend \<lparr>req_price = 0, req_err = Some (wrapError e)\<rparr>) s1
                 | None \<Rightarrow> goto i (AtLock itemCode \<lparr>price = p, creationDate = clock w\<rparr>) s1)
         | AtLock itemCode p \<Rightarrow>
             (if mutex s = None then goto i (AtWrite itemCode p) (s\<lparr>mutex := Some i\<rparr>)
              else s)
         | AtWrite itemCode p \<Rightarrow>
             goto i (AtUnlock (price p)) (s\<lparr>world := storePrice (world s) itemCode p\<rparr>)
         | AtUnlock v \<Rightarrow>
             goto i (AtSend \<lparr>req_price = v, req_err = None\<rparr>) (s\<lparr>mutex := None\<rparr>)
         | AtSend r \<Rightarrow> goto i Finished (s\<lparr>messages := messages s @ [r]\<rparr>)
         | Finished \<Rightarrow> s)
      else s)"

text \<open>
  The read of line 60 is made without the mutex, so it can run at the same time as the
  write of line 54 by the goroutine that holds the mutex. Go gives a program no
  guarantee for a map read that overlaps a map write: its runtime detects the overlap
  and kills the process (\<^verbatim>\<open>fatal error: concurrent map read and map write\<close>).
  \<open>racing i s\<close>: goroutine \<open>i\<close> stands before its read while some goroutine stands
  before its write, so the two accesses can overlap. (Go's memory model lets an
  implementation stop a program at any data race.)
\<close>

definition writing :: "pc \<Rightarrow> bool" where
  "writing g = (case g of AtWrite k p \<Rightarrow> True | _ \<Rightarrow> False)"

definition racing :: "nat \<Rightarrow> system \<Rightarrow> bool" where
  "racing i s =
     (i < length (goroutines s) \<and>
      (case goroutines s ! i of
         AtLookup k \<Rightarrow> list_ex writing (goroutines s)
       | _ \<Rightarrow> False))"

text \<open>
  A schedule: which goroutine moves next, how much time passes, or the read of a
  goroutine overlapping a write, which kills the process where the two can overlap.
  In a killed process no goroutine moves any more.
\<close>

datatype event = Step nat | Tick nat | Race nat

fun exec :: "event \<Rightarrow> system \<Rightarrow> system" where
  "exec (Step i) s = (if crashed s then s else step i s)"
| "exec (Tick d) s = s\<lparr>world := (world s)\<lparr>clock := clock (world s) + int d\<rparr>\<rparr>"
| "exec (Race i) s = (if racing i s then s\<lparr>crashed := True\<rparr> else s)"

fun run :: "event list \<Rightarrow> system \<Rightarrow> system" where
  "run [] s = s"
| "run (e # es) s = run es (exec e s)"

subsection \<open>Batch lookup\<close>

text \<open>Lines 84 to 89: the channel is made and one goroutine per item code is started.\<close>

definition spawn :: "world \<Rightarrow> string list \<Rightarrow> system" where
  "spawn w itemCodes =
     \<lparr>world = w, mutex = None, goroutines = map AtLookup itemCodes, messages = [],
      crashed = False\<rparr>"

text \<open>
  Lines 92 to 100, the receive loop: \<open>i\<close> messages are still to be received, \<open>msgs\<close> is
  what the channel delivers (oldest first), \<open>results\<close> the prices appended so far.
  \<open>None\<close>: the loop waits on an empty channel.
\<close>

fun receive :: "nat \<Rightarrow> PriceRequest list \<Rightarrow> real list \<Rightarrow> (real list \<times> error option) option" where
  "receive 0 msgs results = Some (results, None)"
| "receive (Suc i) [] results = None"
| "receive (Suc i) (request # msgs) results =
     (case req_err request of
        Some e \<Rightarrow> Some ([], Some e)
      | None \<Rightarrow> receive i msgs (results @ [req_price request]))"

text \<open>
  \<^verbatim>\<open>GetPricesFor\<close> under a schedule: what the caller gets and the world the schedule
  leaves. The caller gets \<open>None\<close> while the receive loop still waits at the end of
  the schedule, and when the process has been killed: the caller dies with it.
\<close>

definition GetPricesFor ::
  "event list \<Rightarrow> world \<Rightarrow> string list \<Rightarrow> (real list \<times> error option) option \<times> world" where
  "GetPricesFor sched w itemCodes =
     (let s = run sched (spawn w itemCodes)
      in (if crashed s then None else receive (length itemCodes) (messages s) [], world s))"

text \<open>Every goroutine has ended.\<close>

definition finished :: "system \<Rightarrow> bool" where
  "finished s = list_all (\<lambda>g. g = Finished) (goroutines s)"

text \<open>The schedule that runs the goroutines one after the other, in launch order.\<close>

definition solo :: "nat \<Rightarrow> event list" where
  "solo i = [Step i, Step i, Step i, Step i, Step i, Step i]"

definition inOrder :: "nat \<Rightarrow> event list" where
  "inOrder n = concat (map solo [0..<n])"

subsection \<open>Bookkeeping for the proofs\<close>

text \<open>
  The item code a goroutine may still ask the upstream service for (it has not passed
  line 65), as a multiset; and whether a goroutine has sent its message.
\<close>

definition pending :: "pc \<Rightarrow> string multiset" where
  "pending g = (case g of AtLookup k \<Rightarrow> {#k#} | AtFetch k \<Rightarrow> {#k#} | _ \<Rightarrow> {#})"

definition sent :: "pc \<Rightarrow> nat" where
  "sent g = (if g = Finished then 1 else 0)"

text \<open>A message that reports a price, not an error.\<close>

definition ok :: "PriceRequest \<Rightarrow> bool" where
  "ok r = (req_err r = None)"

text \<open>
  The upstream calls made so far together with those that may still come: it never
  grows along a run.
\<close>

definition budget :: "system \<Rightarrow> string multiset" where
  "budget s = mset (calls (world s)) + sum_list (map pending (goroutines s))"

text \<open>
  The item code a goroutine may still write to the store, and the keys the store has
  or may still get.
\<close>

definition target :: "pc \<Rightarrow> string set" where
  "target g = (case g of AtLookup k \<Rightarrow> {k} | AtFetch k \<Rightarrow> {k} | AtLock k p \<Rightarrow> {k}
     | AtWrite k p \<Rightarrow> {k} | _ \<Rightarrow> {})"

definition reach :: "system \<Rightarrow> string set" where
  "reach s = dom (prices (cache (world s))) \<union> (\<Union>g \<in> set (goroutines s). target g)"

text \<open>A goroutine that holds the mutex: it has locked and not yet unlocked.\<close>

definition holding :: "pc \<Rightarrow> bool" where
  "holding g = (case g of AtWrite k p \<Rightarrow> True | AtUnlock v \<Rightarrow> True | _ \<Rightarrow> False)"

text \<open>The mutex names its holder, and a goroutine that holds it is the one named.\<close>

definition mutex_inv :: "system \<Rightarrow> bool" where
  "mutex_inv s =
     ((\<forall>i < length (goroutines s). holding (goroutines s ! i) = (mutex s = Some i))
      \<and> (\<forall>j. mutex s = Some j \<longrightarrow> j < length (goroutines s)))"

text \<open>
  A goroutine works on the item code \<open>k\<close>; and, for an item code \<open>a\<close>, it has not yet
  asked the upstream service if \<open>k\<close> is \<open>a\<close>.
\<close>

definition owns :: "string \<Rightarrow> pc \<Rightarrow> bool" where
  "owns k g = (case g of AtLookup k' \<Rightarrow> k' = k | AtFetch k' \<Rightarrow> k' = k
     | AtLock k' p \<Rightarrow> k' = k | AtWrite k' p \<Rightarrow> k' = k | _ \<Rightarrow> True)"

definition waiting :: "string \<Rightarrow> string \<Rightarrow> pc \<Rightarrow> bool" where
  "waiting a k g = (owns k g \<and> (k = a \<longrightarrow> g = AtLookup a \<or> g = AtFetch a))"

text \<open>
  As long as a batch started in world \<open>w\<close> has made no upstream call for \<open>a\<close>, the
  entry of \<open>a\<close> is the one of \<open>w\<close> and every goroutine of \<open>a\<close> has its call before it.
\<close>

definition unfetched :: "world \<Rightarrow> string list \<Rightarrow> string \<Rightarrow> system \<Rightarrow> bool" where
  "unfetched w ids a s =
     (prefix (calls w) (calls (world s)) \<and>
      (a \<in> set (drop (length (calls w)) (calls (world s)))
      \<or> (prices (cache (world s)) a = prices (cache w) a
         \<and> maxAge (cache (world s)) = maxAge (cache w)
         \<and> clock w \<le> clock (world s)
         \<and> length (goroutines s) = length ids
         \<and> (\<forall>i < length ids. waiting a (ids ! i) (goroutines s ! i)))))"

text \<open>
  The schedule of one call of \<^verbatim>\<open>GetPriceFor\<close> by goroutine \<open>i\<close> with nothing in
  between, up to its return; the upstream call takes the time \<open>d\<close>.
\<close>

definition alone :: "nat \<Rightarrow> nat \<Rightarrow> world \<Rightarrow> string \<Rightarrow> event list" where
  "alone i d w k =
     (case freshPrice w k of
        Some p \<Rightarrow> [Step i]
      | None \<Rightarrow>
          (case snd (actualPriceService (cache w) (calls w) k) of
             Some e \<Rightarrow> [Step i, Tick d, Step i]
           | None \<Rightarrow> [Step i, Tick d, Step i, Step i, Step i, Step i]))"

text \<open>
  No entry of the store, and no price a goroutine is about to store, carries a
  timestamp later than the clock.
\<close>

definition stamped :: "world \<Rightarrow> bool" where
  "stamped w = (\<forall>k p. prices (cache w) k = Some p \<longrightarrow> creationDate p \<le> clock w)"

definition carried :: "pc \<Rightarrow> Price option" where
  "carried g = (case g of AtLock k p \<Rightarrow> Some p | AtWrite k p \<Rightarrow> Some p | _ \<Rightarrow> None)"

definition stamped_sys :: "system \<Rightarrow> bool" where
  "stamped_sys s =
     (stamped (world s)
      \<and> (\<forall>g \<in> set (goroutines s). \<forall>p. carried g = Some p \<longrightarrow> creationDate p \<le> clock (world s)))"

subsection \<open>Sample worlds\<close>

text \<open>
  An upstream service that knows the items \<open>a\<close> (price 1) and \<open>b\<close> (price 2) and fails
  on every other item; a new cache before its first call; and a cache that holds \<open>a\<close>
  at price 5, fetched at time 0, read at time \<open>t\<close>. Both caches keep prices for 60
  nanoseconds.
\<close>

definition mockService :: PriceService where
  "mockService history itemCode =
     (if itemCode = ''a'' then (1, None)
      else if itemCode = ''b'' then (2, None)
      else (0, Some ''boom''))"

definition emptyWorld :: world where
  "emptyWorld = \<lparr>cache = NewTransparentCache mockService 60, clock = 0, calls = []\<rparr>"

definition cachedWorld :: "Time \<Rightarrow> world" where
  "cachedWorld t =
     \<lparr>cache = \<lparr>actualPriceService = mockService, maxAge = 60,
               prices = [''a'' \<mapsto> \<lparr>price = 5, creationDate = 0\<rparr>]\<rparr>,
      clock = t, calls = []\<rparr>"

section \<open>Properties\<close>

subsection \<open>Expiration\<close>

lemma sint_Sub: "sint (Sub t u) = max minDuration (min (t - u) maxDuration)"
proof -
  have r: "sint (word_of_int x :: 64 word) = x" if "- (2 ^ 63) \<le> x" "x < 2 ^ 63" for x :: int
    using that by (simp add: sint_sbintrunc' signed_take_bit_int_eq_self_iff)
  show ?thesis
    unfolding Sub_def maxDuration_def minDuration_def
    by (simp del: of_int_diff add: r)
qed

lemma sint_Duration_range: "minDuration \<le> sint (D :: Duration) \<and> sint D \<le> maxDuration"
  using sint_lt [of D] sint_ge [of D] by (simp add: minDuration_def maxDuration_def)

text \<open>
  On a clock that does not run backwards the saturation of \<^verbatim>\<open>Time.Sub\<close> is invisible:
  the check compares the true age with \<open>maxAge\<close>.
\<close>

lemma checkExpiration_iff:
  "creationDate p \<le> now \<Longrightarrow> checkExpiration p D now \<longleftrightarrow> now - creationDate p < sint D"
  using sint_Duration_range [of D]
  by (auto simp: checkExpiration_def word_sless_alt sint_Sub minDuration_def maxDuration_def)

lemma freshPrice_Some_iff:
  "freshPrice w k = Some p \<longleftrightarrow>
     prices (cache w) k = Some p \<and> checkExpiration p (maxAge (cache w)) (clock w)"
  by (auto simp: freshPrice_def split: option.splits)

text \<open>A stale entry stays stale as time passes.\<close>

lemma Sub_mono: "t \<le> t' \<Longrightarrow> sint (Sub t u) \<le> sint (Sub t' u)"
  by (simp add: sint_Sub)

lemma stale_stays:
  "\<not> checkExpiration p D t \<Longrightarrow> t \<le> t' \<Longrightarrow> \<not> checkExpiration p D t'"
  using Sub_mono [of t t' "creationDate p"]
  by (simp add: checkExpiration_def word_sless_alt)

lemma freshPrice_None_later:
  assumes "freshPrice w a = None"
    and "prices (cache w') a = prices (cache w) a" and "maxAge (cache w') = maxAge (cache w)"
    and "clock w \<le> clock w'"
  shows "freshPrice w' a = None"
proof (cases "prices (cache w) a")
  case None
  with assms(2) show ?thesis by (simp add: freshPrice_def)
next
  case (Some p)
  with assms(1) have "\<not> checkExpiration p (maxAge (cache w)) (clock w)"
    by (simp add: freshPrice_def split: if_splits)
  then have "\<not> checkExpiration p (maxAge (cache w)) (clock w')"
    using assms(4) by (rule stale_stays)
  with Some assms(2,3) show ?thesis by (simp add: freshPrice_def)
qed

subsection \<open>The three ways through \<^verbatim>\<open>GetPriceFor\<close>\<close>

lemma GetPriceFor_hit:
  "freshPrice w k = Some p \<Longrightarrow> GetPriceFor d w k = ((price p, None), w)"
  by (simp add: GetPriceFor_def)

lemma GetPriceFor_fail:
  "freshPrice w k = None \<Longrightarrow> actualPriceService (cache w) (calls w) k = (v, Some e) \<Longrightarrow>
   GetPriceFor d w k =
     ((0, Some (wrapError e)), w\<lparr>clock := clock w + int d, calls := calls w @ [k]\<rparr>)"
  by (simp add: GetPriceFor_def)

lemma GetPriceFor_store:
  "freshPrice w k = None \<Longrightarrow> actualPriceService (cache w) (calls w) k = (v, None) \<Longrightarrow>
   GetPriceFor d w k =
     ((v, None),
      sequentialPriceSet (w\<lparr>clock := clock w + int d, calls := calls w @ [k]\<rparr>) k
        \<lparr>price = v, creationDate = clock w + int d\<rparr>)"
  by (simp add: GetPriceFor_def)

lemma GetPriceFor_miss_calls:
  "freshPrice w k = None \<Longrightarrow> calls (snd (GetPriceFor d w k)) = calls w @ [k]"
  by (cases "actualPriceService (cache w) (calls w) k")
     (auto simp: GetPriceFor_def Let_def sequentialPriceSet_def storePrice_def
           split: option.splits)

lemma fresh_cachedWorld: "freshPrice (cachedWorld 59) ''a'' = Some \<lparr>price = 5, creationDate = 0\<rparr>"
  by (simp add: freshPrice_def cachedWorld_def checkExpiration_def Sub_def maxDuration_def
      minDuration_def word_sless_alt)

lemma stale_cachedWorld: "freshPrice (cachedWorld 60) ''a'' = None"
  by (simp add: freshPrice_def cachedWorld_def checkExpiration_def Sub_def maxDuration_def
      minDuration_def word_sless_alt)

lemma miss_emptyWorld: "freshPrice emptyWorld k = None"
  by (simp add: freshPrice_def emptyWorld_def NewTransparentCache_def)

text \<open>
  C3. An entry fetched at \<open>t0\<close> and looked up at \<open>t\<close>, not before \<open>t0\<close>, under
  \<open>maxAge = D\<close>: the lookup returns the stored value without an upstream call if and
  only if \<open>t - t0 < D\<close>; at \<open>t0 + D\<close> or later the upstream service is called again.
  (That no entry is looked up before it was fetched is shown below, for every world
  reached from a new cache.)
\<close>

theorem GetPriceFor_hit_iff_younger_than_maxAge:
  assumes "prices (cache w) itemCode = Some \<lparr>price = v, creationDate = t0\<rparr>"
    and "t0 \<le> clock w"
  shows "((fst (GetPriceFor d w itemCode) = (v, None) \<and>
           calls (snd (GetPriceFor d w itemCode)) = calls w)
          \<longleftrightarrow> clock w - t0 < sint (maxAge (cache w)))
       \<and> (\<not> clock w - t0 < sint (maxAge (cache w)) \<longrightarrow>
           calls (snd (GetPriceFor d w itemCode)) = calls w @ [itemCode])"
proof (cases "clock w - t0 < sint (maxAge (cache w))")
  case True
  with assms have "freshPrice w itemCode = Some \<lparr>price = v, creationDate = t0\<rparr>"
    by (simp add: freshPrice_Some_iff checkExpiration_iff)
  with True show ?thesis by (simp add: GetPriceFor_hit)
next
  case False
  with assms have "freshPrice w itemCode = None"
    by (simp add: freshPrice_def checkExpiration_iff)
  with False show ?thesis by (simp add: GetPriceFor_miss_calls)
qed

theorem GetPriceFor_hit_iff_younger_than_maxAge_witness:
  "prices (cache (cachedWorld 59)) ''a'' = Some \<lparr>price = 5, creationDate = 0\<rparr>
   \<and> fst (GetPriceFor 0 (cachedWorld 59) ''a'') = (5, None)
   \<and> calls (snd (GetPriceFor 0 (cachedWorld 59) ''a'')) = []
   \<and> prices (cache (cachedWorld 60)) ''a'' = Some \<lparr>price = 5, creationDate = 0\<rparr>
   \<and> calls (snd (GetPriceFor 0 (cachedWorld 60) ''a'')) = [''a'']"
  using GetPriceFor_hit_iff_younger_than_maxAge [of "cachedWorld 59" "''a''" 5 0 0]
    GetPriceFor_hit_iff_younger_than_maxAge [of "cachedWorld 60" "''a''" 5 0 0]
  by (simp add: cachedWorld_def)

text \<open>
  C5, as the claim states it, fails: the failure of a lookup whose upstream call fails
  with the message \<open>boom\<close> reads \<open>getting price from service : boom\<close>; the words
  \<open>failed while getting price\<close> are nowhere in it.
\<close>

theorem GetPriceFor_failure_context_counterexample:
  "freshPrice emptyWorld ''c'' = None
   \<and> actualPriceService (cache emptyWorld) (calls emptyWorld) ''c'' = (0, Some ''boom'')
   \<and> snd (fst (GetPriceFor 0 emptyWorld ''c'')) = Some ''getting price from service : boom''
   \<and> \<not> sublist ''failed while getting price'' ''getting price from service : boom''"
proof -
  have h: "actualPriceService (cache emptyWorld) (calls emptyWorld) ''c'' = (0, Some ''boom'')"
    by (simp add: emptyWorld_def NewTransparentCache_def mockService_def)
  have "GetPriceFor 0 emptyWorld ''c'' =
      ((0, Some (wrapError ''boom'')), emptyWorld\<lparr>clock := clock emptyWorld + int 0,
         calls := calls emptyWorld @ [''c'']\<rparr>)"
    using miss_emptyWorld h by (rule GetPriceFor_fail)
  then have "snd (fst (GetPriceFor 0 emptyWorld ''c'')) = Some ''getting price from service : boom''"
    by (simp add: wrapError_def)
  moreover have "\<not> sublist ''failed while getting price'' ''getting price from service : boom''"
    by (simp add: sublist_Cons_right)
  ultimately show ?thesis
    using miss_emptyWorld h by simp
qed

text \<open>
  C5, amended. A lookup whose upstream call fails with cause \<open>e\<close> returns the price 0 and
  a failure whose message is \<open>getting price from service : \<close> followed by \<open>e\<close>, and
  leaves the cache (the store with it) as it was: no entry is inserted, overwritten or
  removed.
\<close>

theorem GetPriceFor_upstream_failure:
  assumes "freshPrice w itemCode = None"
    and "actualPriceService (cache w) (calls w) itemCode = (v, Some e)"
  shows "fst (GetPriceFor d w itemCode) = (0, Some (''getting price from service : '' @ e))
       \<and> cache (snd (GetPriceFor d w itemCode)) = cache w
       \<and> calls (snd (GetPriceFor d w itemCode)) = calls w @ [itemCode]"
  using assms by (simp add: GetPriceFor_fail wrapError_def)

theorem GetPriceFor_upstream_failure_witness:
  "freshPrice emptyWorld ''c'' = None
   \<and> actualPriceService (cache emptyWorld) (calls emptyWorld) ''c'' = (0, Some ''boom'')
   \<and> fst (GetPriceFor 3 emptyWorld ''c'') = (0, Some ''getting price from service : boom'')
   \<and> prices (cache (snd (GetPriceFor 3 emptyWorld ''c''))) = Map.empty
   \<and> calls (snd (GetPriceFor 3 emptyWorld ''c'')) = [''c'']"
proof -
  have h1: "freshPrice emptyWorld ''c'' = None"
    by (rule miss_emptyWorld)
  have h2: "actualPriceService (cache emptyWorld) (calls emptyWorld) ''c'' = (0, Some ''boom'')"
    by (simp add: emptyWorld_def NewTransparentCache_def mockService_def)
  from GetPriceFor_upstream_failure [OF h1 h2, of 3] h1 h2 show ?thesis
    by (simp add: emptyWorld_def NewTransparentCache_def)
qed

text \<open>
  C6. A lookup of an item whose entry is in the store and fresh returns the stored
  value and leaves the world as it was: no upstream call is logged and no entry of the
  store is written.
\<close>

theorem GetPriceFor_fresh_entry_frame:
  assumes "prices (cache w) itemCode = Some p"
    and "checkExpiration p (maxAge (cache w)) (clock w)"
  shows "GetPriceFor d w itemCode = ((price p, None), w)"
  using assms by (simp add: GetPriceFor_hit freshPrice_Some_iff)

theorem GetPriceFor_fresh_entry_frame_witness:
  "prices (cache (cachedWorld 59)) ''a'' = Some \<lparr>price = 5, creationDate = 0\<rparr>
   \<and> checkExpiration \<lparr>price = 5, creationDate = 0\<rparr> (maxAge (cache (cachedWorld 59)))
       (clock (cachedWorld 59))
   \<and> GetPriceFor 7 (cachedWorld 59) ''a'' = ((5, None), cachedWorld 59)"
proof -
  have h1: "prices (cache (cachedWorld 59)) ''a'' = Some \<lparr>price = 5, creationDate = 0\<rparr>"
    and h2: "checkExpiration \<lparr>price = 5, creationDate = 0\<rparr> (maxAge (cache (cachedWorld 59)))
       (clock (cachedWorld 59))"
    using fresh_cachedWorld by (simp_all add: freshPrice_Some_iff)
  from GetPriceFor_fresh_entry_frame [OF h1 h2, of 7] h1 h2 show ?thesis by simp
qed

text \<open>
  C7. A lookup that misses or finds a stale entry, and whose upstream call succeeds
  with value \<open>v\<close>, returns \<open>v\<close> and stores under the item code an entry with the value
  \<open>v\<close> and the time at which the call returned; the entry replaces whatever was stored
  under that code, and no other entry changes.
\<close>

theorem GetPriceFor_fetch_overwrites:
  assumes "freshPrice w itemCode = None"
    and "actualPriceService (cache w) (calls w) itemCode = (v, None)"
  shows "fst (GetPriceFor d w itemCode) = (v, None)
       \<and> clock (snd (GetPriceFor d w itemCode)) = clock w + int d
       \<and> prices (cache (snd (GetPriceFor d w itemCode))) =
           (prices (cache w))(itemCode \<mapsto> \<lparr>price = v, creationDate = clock w + int d\<rparr>)"
  using assms by (simp add: GetPriceFor_store sequentialPriceSet_def storePrice_def)

theorem GetPriceFor_fetch_overwrites_witness:
  "freshPrice (cachedWorld 60) ''a'' = None
   \<and> actualPriceService (cache (cachedWorld 60)) (calls (cachedWorld 60)) ''a'' = (1, None)
   \<and> prices (cache (cachedWorld 60)) ''a'' = Some \<lparr>price = 5, creationDate = 0\<rparr>
   \<and> fst (GetPriceFor 4 (cachedWorld 60) ''a'') = (1, None)
   \<and> prices (cache (snd (GetPriceFor 4 (cachedWorld 60) ''a''))) ''a'' =
       Some \<lparr>price = 1, creationDate = 64\<rparr>"
proof -
  have h1: "freshPrice (cachedWorld 60) ''a'' = None"
    by (rule stale_cachedWorld)
  have h2: "actualPriceService (cache (cachedWorld 60)) (calls (cachedWorld 60)) ''a'' = (1, None)"
    by (simp add: cachedWorld_def mockService_def)
  from GetPriceFor_fetch_overwrites [OF h1 h2, of 4] h1 h2 show ?thesis
    by (simp add: cachedWorld_def)
qed

subsection \<open>Timestamps lie in the past\<close>

text \<open>
  \<^verbatim>\<open>time.Now()\<close> does not run backwards, so every entry a lookup finds was stamped at
  or before the time of the lookup: the worlds reached from a new cache by lookups
  satisfy the second assumption of the expiration theorem above.
\<close>

lemma stamped_new: "stamped \<lparr>cache = NewTransparentCache svc age, clock = t, calls = cs\<rparr>"
  by (simp add: stamped_def NewTransparentCache_def)

lemma stamped_later:
  assumes "stamped w" and "cache w' = cache w" and "clock w \<le> clock w'"
  shows "stamped w'"
  unfolding stamped_def
proof (intro allI impI)
  fix k p
  assume "prices (cache w') k = Some p"
  with assms(1,2) have "creationDate p \<le> clock w" by (simp add: stamped_def)
  with assms(3) show "creationDate p \<le> clock w'" by simp
qed

lemma stamped_store:
  "stamped w \<Longrightarrow> creationDate p \<le> clock w \<Longrightarrow> stamped (storePrice w k p)"
  by (simp add: stamped_def storePrice_def)

lemma stamped_GetPriceFor:
  assumes "stamped w"
  shows "stamped (snd (GetPriceFor d w k))"
proof (cases "freshPrice w k")
  case (Some p)
  with assms show ?thesis by (simp add: GetPriceFor_hit)
next
  case None
  obtain v err where svc: "actualPriceService (cache w) (calls w) k = (v, err)"
    by (cases "actualPriceService (cache w) (calls w) k")
  have w1: "stamped (w\<lparr>clock := clock w + int d, calls := calls w @ [k]\<rparr>)"
    using assms by (rule stamped_later) simp_all
  show ?thesis
  proof (cases err)
    case (Some e)
    with None svc w1 show ?thesis by (simp add: GetPriceFor_fail)
  next
    case None': None
    with None svc stamped_store [OF w1, of "\<lparr>price = v, creationDate = clock w + int d\<rparr>" k]
    show ?thesis by (simp add: GetPriceFor_store sequentialPriceSet_def)
  qed
qed

subsection \<open>Schedules\<close>

lemma run_append: "run (xs @ ys) s = run ys (run xs s)"
  by (induction xs arbitrary: s) simp_all

lemma length_step [simp]: "length (goroutines (step i s)) = length (goroutines s)"
  by (simp add: step_def goto_def Let_def split: pc.splits option.splits prod.splits)

lemma length_exec [simp]: "length (goroutines (exec e s)) = length (goroutines s)"
  by (cases e) simp_all

lemma length_run [simp]: "length (goroutines (run es s)) = length (goroutines s)"
  by (induction es arbitrary: s) simp_all

text \<open>The step of a goroutine, by where it stands.\<close>

lemma goto_simps [simp]:
  "goroutines (goto i g s) = (goroutines s)[i := g]"
  "world (goto i g s) = world s"
  "mutex (goto i g s) = mutex s"
  "messages (goto i g s) = messages s"
  "crashed (goto i g s) = crashed s"
  by (simp_all add: goto_def)

text \<open>Only a race kills the process, and a killed process stays killed.\<close>

lemma crashed_step [simp]: "crashed (step i s) = crashed s"
  by (simp add: step_def goto_def Let_def split: pc.splits option.splits prod.splits)

lemma crashed_exec: "crashed s \<Longrightarrow> crashed (exec e s)"
  by (cases e) simp_all

lemma crashed_run: "crashed s \<Longrightarrow> crashed (run es s)"
  by (induction es arbitrary: s) (simp_all add: crashed_exec)

lemma racing_lookup: "racing i s \<Longrightarrow> \<exists>k. goroutines s ! i = AtLookup k"
  by (cases "goroutines s ! i") (simp_all add: racing_def)

lemma step_AtLookup:
  "i < length (goroutines s) \<Longrightarrow> goroutines s ! i = AtLookup k \<Longrightarrow>
   step i s = (case freshPrice (world s) k of
                 Some priceStruct \<Rightarrow> goto i (AtSend \<lparr>req_price = price priceStruct, req_err = None\<rparr>) s
               | None \<Rightarrow> goto i (AtFetch k) s)"
  by (simp add: step_def)

lemma step_AtFetch:
  "i < length (goroutines s) \<Longrightarrow> goroutines s ! i = AtFetch k \<Longrightarrow>
   actualPriceService (cache (world s)) (calls (world s)) k = (v, err) \<Longrightarrow>
   step i s = goto i (case err of
                        Some e \<Rightarrow> AtSend \<lparr>req_price = 0, req_err = Some (wrapError e)\<rparr>
                      | None \<Rightarrow> AtLock k \<lparr>price = v, creationDate = clock (world s)\<rparr>)
                (s\<lparr>world := (world s)\<lparr>calls := calls (world s) @ [k]\<rparr>\<rparr>)"
  by (cases err) (simp_all add: step_def Let_def)

lemma step_AtLock:
  "i < length (goroutines s) \<Longrightarrow> goroutines s ! i = AtLock k p \<Longrightarrow>
   step i s = (if mutex s = None then goto i (AtWrite k p) (s\<lparr>mutex := Some i\<rparr>) else s)"
  by (simp add: step_def)

lemma step_AtWrite:
  "i < length (goroutines s) \<Longrightarrow> goroutines s ! i = AtWrite k p \<Longrightarrow>
   step i s = goto i (AtUnlock (price p)) (s\<lparr>world := storePrice (world s) k p\<rparr>)"
  by (simp add: step_def)

lemma step_AtUnlock:
  "i < length (goroutines s) \<Longrightarrow> goroutines s ! i = AtUnlock v \<Longrightarrow>
   step i s = goto i (AtSend \<lparr>req_price = v, req_err = None\<rparr>) (s\<lparr>mutex := None\<rparr>)"
  by (simp add: step_def)

lemma step_AtSend:
  "i < length (goroutines s) \<Longrightarrow> goroutines s ! i = AtSend r \<Longrightarrow>
   step i s = goto i Finished (s\<lparr>messages := messages s @ [r]\<rparr>)"
  by (simp add: step_def)

lemma step_Finished:
  "i < length (goroutines s) \<Longrightarrow> goroutines s ! i = Finished \<Longrightarrow> step i s = s"
  by (simp add: step_def)

lemmas step_at = step_AtLookup step_AtFetch step_AtLock step_AtWrite step_AtUnlock step_AtSend
  step_Finished

lemma step_none: "goroutines s = [] \<Longrightarrow> step i s = s"
  by (simp add: step_def)

lemma run_none:
  "goroutines s = [] \<Longrightarrow>
     goroutines (run es s) = [] \<and> messages (run es s) = messages s \<and>
     cache (world (run es s)) = cache (world s) \<and> calls (world (run es s)) = calls (world s) \<and>
     crashed (run es s) = crashed s"
proof (induction es arbitrary: s)
  case Nil
  then show ?case by simp
next
  case (Cons e es)
  show ?case
  proof (cases e)
    case (Step i)
    with Cons show ?thesis by (simp add: step_none)
  next
    case (Tick d)
    with Cons.prems Cons.IH [of "exec e s"] show ?thesis by simp
  next
    case (Race i)
    with Cons show ?thesis by (simp add: racing_def)
  qed
qed

text \<open>
  C10. A batch of no item codes returns the empty price list and no error under every
  schedule, without an upstream call and without a change to the cache.
\<close>

theorem GetPricesFor_no_items:
  "fst (GetPricesFor sched w []) = Some ([], None)
   \<and> cache (snd (GetPricesFor sched w [])) = cache w
   \<and> calls (snd (GetPricesFor sched w [])) = calls w"
  using run_none [of "spawn w []" sched]
  by (simp add: GetPricesFor_def spawn_def)

lemma spawn_simps:
  "world (spawn w ids) = w" "mutex (spawn w ids) = None"
  "goroutines (spawn w ids) = map AtLookup ids" "messages (spawn w ids) = []"
  "crashed (spawn w ids) = False"
  by (simp_all add: spawn_def)

subsection \<open>A goroutine left alone runs \<^verbatim>\<open>GetPriceFor\<close>\<close>

text \<open>
  The steps of one goroutine, taken with no other step in between, change the world as
  \<^verbatim>\<open>GetPriceFor\<close> does and leave the goroutine before its send with the pair that
  \<^verbatim>\<open>GetPriceFor\<close> returns.
\<close>

lemma goroutine_alone_is_GetPriceFor:
  assumes i: "i < length (goroutines s)" and at: "goroutines s ! i = AtLookup k"
    and free: "mutex s = None" and alive: "\<not> crashed s"
  shows "run (alone i d (world s) k) s =
         s\<lparr>world := snd (GetPriceFor d (world s) k),
           goroutines := (goroutines s)
             [i := AtSend \<lparr>req_price = fst (fst (GetPriceFor d (world s) k)),
                          req_err = snd (fst (GetPriceFor d (world s) k))\<rparr>]\<rparr>"
proof (cases "freshPrice (world s) k")
  case (Some p)
  with i at alive show ?thesis
    by (simp add: alone_def step_at GetPriceFor_hit goto_def)
next
  case None
  obtain v err where svc: "actualPriceService (cache (world s)) (calls (world s)) k = (v, err)"
    by (cases "actualPriceService (cache (world s)) (calls (world s)) k")
  show ?thesis
  proof (cases err)
    case (Some e)
    with None svc i at alive show ?thesis
      by (simp add: alone_def step_at GetPriceFor_fail goto_def)
  next
    case None': None
    with None svc i at free alive show ?thesis
      by (simp add: alone_def step_at GetPriceFor_store goto_def sequentialPriceSet_def
          storePrice_def)
  qed
qed

subsection \<open>The mutex\<close>

lemma mutex_inv_step: "mutex_inv s \<Longrightarrow> mutex_inv (step i s)"
proof (cases "i < length (goroutines s)")
  case False
  assume "mutex_inv s"
  with False show ?thesis by (simp add: step_def)
next
  case True
  assume inv: "mutex_inv s"
  from inv True have me: "holding (goroutines s ! i) = (mutex s = Some i)"
    by (simp add: mutex_inv_def)
  show ?thesis
  proof (cases "goroutines s ! i")
    case (AtLookup k)
    with inv True me show ?thesis
      by (cases "freshPrice (world s) k")
         (auto simp: step_at mutex_inv_def holding_def nth_list_update)
  next
    case (AtFetch k)
    obtain v err where svc: "actualPriceService (cache (world s)) (calls (world s)) k = (v, err)"
      by (cases "actualPriceService (cache (world s)) (calls (world s)) k")
    with AtFetch inv True me show ?thesis
      by (cases err) (auto simp: step_AtFetch mutex_inv_def holding_def nth_list_update)
  next
    case (AtLock k p)
    with inv True me show ?thesis
      by (auto simp: step_at mutex_inv_def holding_def nth_list_update)
  next
    case (AtWrite k p)
    with inv True me show ?thesis
      by (auto simp: step_at mutex_inv_def holding_def nth_list_update)
  next
    case (AtUnlock v)
    with inv True me show ?thesis
      by (auto simp: step_at mutex_inv_def holding_def nth_list_update)
  next
    case (AtSend r)
    with inv True me show ?thesis
      by (auto simp: step_at mutex_inv_def holding_def nth_list_update)
  next
    case Finished
    with inv True show ?thesis by (simp add: step_at)
  qed
qed

lemma mutex_inv_exec: "mutex_inv s \<Longrightarrow> mutex_inv (exec e s)"
  by (cases e) (simp_all add: mutex_inv_step, simp_all add: mutex_inv_def)

lemma mutex_inv_run: "mutex_inv s \<Longrightarrow> mutex_inv (run es s)"
  by (induction es arbitrary: s) (simp_all add: mutex_inv_exec)

lemma mutex_inv_spawn: "mutex_inv (spawn w ids)"
  by (simp add: mutex_inv_def spawn_simps holding_def)

text \<open>Writers exclude each other: at no time do two goroutines hold the mutex.\<close>

lemma writers_exclusive:
  assumes "i < length ids" and "j < length ids"
    and "holding (goroutines (run sched (spawn w ids)) ! i)"
    and "holding (goroutines (run sched (spawn w ids)) ! j)"
  shows "i = j"
proof -
  have "mutex_inv (run sched (spawn w ids))"
    using mutex_inv_spawn by (rule mutex_inv_run)
  with assms show ?thesis
    by (simp add: mutex_inv_def spawn_simps)
qed

text \<open>
  The mutex never blocks for good: in a process that has not been killed its holder
  can always move, and once the mutex is free the goroutines can be run to their end
  one after the other.
\<close>

lemma solo_finishes:
  assumes inv: "mutex_inv s" and i: "i < length (goroutines s)"
    and free: "mutex s = None \<or> mutex s = Some i" and alive: "\<not> crashed s"
  shows "goroutines (run (solo i) s) = (goroutines s)[i := Finished]
       \<and> mutex (run (solo i) s) = None \<and> \<not> crashed (run (solo i) s)"
proof -
  from inv i have me: "holding (goroutines s ! i) = (mutex s = Some i)"
    by (simp add: mutex_inv_def)
  show ?thesis
  proof (cases "goroutines s ! i")
    case (AtLookup k)
    obtain v err where svc: "actualPriceService (cache (world s)) (calls (world s)) k = (v, err)"
      by (cases "actualPriceService (cache (world s)) (calls (world s)) k")
    from AtLookup me free have m: "mutex s = None" by (auto simp: holding_def)
    show ?thesis
    proof (cases "freshPrice (world s) k")
      case (Some p)
      with AtLookup i m alive show ?thesis
        by (simp add: solo_def step_at)
    next
      case None
      with AtLookup i m svc alive show ?thesis
        by (cases err) (simp_all add: solo_def step_at)
    qed
  next
    case (AtFetch k)
    obtain v err where svc: "actualPriceService (cache (world s)) (calls (world s)) k = (v, err)"
      by (cases "actualPriceService (cache (world s)) (calls (world s)) k")
    from AtFetch me free have m: "mutex s = None" by (auto simp: holding_def)
    with AtFetch i svc alive show ?thesis
      by (cases err) (simp_all add: solo_def step_at)
  next
    case (AtLock k p)
    from AtLock me free have m: "mutex s = None" by (auto simp: holding_def)
    with AtLock i alive show ?thesis
      by (simp add: solo_def step_at)
  next
    case (AtWrite k p)
    with i alive show ?thesis
      by (simp add: solo_def step_at)
  next
    case (AtUnlock v)
    with i alive show ?thesis
      by (simp add: solo_def step_at)
  next
    case (AtSend r)
    from AtSend me free have m: "mutex s = None" by (auto simp: holding_def)
    with AtSend i alive show ?thesis
      by (simp add: solo_def step_at)
  next
    case Finished
    from Finished me free have m: "mutex s = None" by (auto simp: holding_def)
    with Finished i alive show ?thesis
      by (simp add: solo_def step_at) (metis list_update_id)
  qed
qed

lemma inOrder_Suc: "inOrder (Suc n) = inOrder n @ solo n"
  by (simp add: inOrder_def)

lemma inOrder_runs:
  assumes "mutex_inv s" and "mutex s = None" and "\<not> crashed s"
    and "n \<le> length (goroutines s)"
  shows "mutex (run (inOrder n) s) = None
       \<and> \<not> crashed (run (inOrder n) s)
       \<and> goroutines (run (inOrder n) s) =
           replicate n Finished @ drop n (goroutines s)"
  using assms(4)
proof (induction n)
  case 0
  with assms show ?case by (simp add: inOrder_def)
next
  case (Suc n)
  define s' where "s' = run (inOrder n) s"
  from Suc have m: "mutex s' = None" and alive: "\<not> crashed s'"
    and gs: "goroutines s' = replicate n Finished @ drop n (goroutines s)"
    by (simp_all add: s'_def)
  have inv: "mutex_inv s'"
    unfolding s'_def using assms(1) by (rule mutex_inv_run)
  from Suc.prems have n: "n < length (goroutines s')" by (simp add: s'_def)
  from m have free: "mutex s' = None \<or> mutex s' = Some n" by simp
  from solo_finishes [OF inv n free alive]
  have "goroutines (run (solo n) s') = (goroutines s')[n := Finished]"
    and "mutex (run (solo n) s') = None" and "\<not> crashed (run (solo n) s')"
    by simp_all
  moreover have "(replicate n Finished @ drop n (goroutines s))[n := Finished] =
      replicate (Suc n) Finished @ drop (Suc n) (goroutines s)"
  proof -
    from Suc.prems have "drop n (goroutines s) = goroutines s ! n # drop (Suc n) (goroutines s)"
      by (simp add: Cons_nth_drop_Suc)
    moreover have "(replicate n Finished @ x # xs)[n := Finished] = replicate n Finished @ Finished # xs"
      for x :: pc and xs
      using list_update_length [of "replicate n Finished" x xs Finished] by simp
    ultimately show ?thesis
      by (simp add: replicate_app_Cons_same)
  qed
  ultimately show ?case
    by (simp add: inOrder_Suc run_append gs flip: s'_def)
qed

lemma inOrder_finishes:
  assumes "mutex_inv s" and "mutex s = None" and "\<not> crashed s"
  shows "finished (run (inOrder (length (goroutines s))) s)"
  using inOrder_runs [OF assms, of "length (goroutines s)"]
  by (simp add: finished_def list_all_iff)

lemma can_finish:
  assumes "mutex_inv s" and "\<not> crashed s"
  shows "\<exists>es. finished (run es s)"
proof (cases "mutex s")
  case None
  with assms inOrder_finishes show ?thesis by blast
next
  case (Some j)
  with assms have j: "j < length (goroutines s)" by (simp add: mutex_inv_def)
  define s' where "s' = run (solo j) s"
  from Some have free: "mutex s = None \<or> mutex s = Some j" by simp
  from solo_finishes [OF assms(1) j free assms(2)]
  have "mutex s' = None" and "\<not> crashed s'" by (simp_all add: s'_def)
  moreover have "mutex_inv s'" unfolding s'_def using assms(1) by (rule mutex_inv_run)
  ultimately have "finished (run (inOrder (length (goroutines s'))) s')"
    by (intro inOrder_finishes)
  then have "finished (run (solo j @ inOrder (length (goroutines s'))) s)"
    by (simp add: run_append s'_def)
  then show ?thesis by blast
qed

text \<open>As long as the process has not been killed, the batch can be run to its end.\<close>

lemma batch_never_stuck:
  assumes "\<not> crashed (run sched (spawn w ids))"
  shows "\<exists>rest. finished (run (sched @ rest) (spawn w ids))"
  using can_finish [OF mutex_inv_run [OF mutex_inv_spawn] assms]
  by (simp add: run_append)

lemma batch_in_order_finishes:
  "finished (run (inOrder (length ids)) (spawn w ids))"
  using inOrder_finishes [OF mutex_inv_spawn, of w ids]
  by (simp add: spawn_simps)

text \<open>
  A killed process has a goroutine that never got past its read, so a batch whose
  goroutines have all ended was not killed.
\<close>

lemma stuck_exec:
  assumes "crashed s \<longrightarrow> \<not> finished s"
  shows "crashed (exec e s) \<longrightarrow> \<not> finished (exec e s)"
proof (cases e)
  case (Step i)
  show ?thesis
  proof (cases "crashed s")
    case True
    with assms Step show ?thesis by simp
  next
    case False
    with Step show ?thesis by simp
  qed
next
  case (Tick d)
  with assms show ?thesis by (simp add: finished_def)
next
  case (Race i)
  show ?thesis
  proof (cases "racing i s")
    case False
    with assms Race show ?thesis by simp
  next
    case True
    then obtain k where "i < length (goroutines s)" "goroutines s ! i = AtLookup k"
      using racing_lookup [of i s] by (auto simp: racing_def)
    then have "\<not> finished s"
      by (auto simp: finished_def list_all_length)
    with True Race show ?thesis by (simp add: finished_def)
  qed
qed

lemma stuck_run:
  "crashed s \<longrightarrow> \<not> finished s \<Longrightarrow> crashed (run es s) \<longrightarrow> \<not> finished (run es s)"
  by (induction es arbitrary: s) (simp_all add: stuck_exec)

lemma finished_not_crashed:
  "finished (run sched (spawn w ids)) \<Longrightarrow> \<not> crashed (run sched (spawn w ids))"
  using stuck_run [of "spawn w ids" sched] by (simp add: spawn_simps)

subsection \<open>The receive loop\<close>

lemma receive_all_ok:
  "n \<le> length msgs \<Longrightarrow> list_all ok (take n msgs) \<Longrightarrow>
   receive n msgs acc = Some (acc @ map req_price (take n msgs), None)"
proof (induction n msgs acc rule: receive.induct)
  case (1 msgs results)
  then show ?case by simp
next
  case (2 i results)
  then show ?case by simp
next
  case (3 i request msgs results)
  then show ?case by (simp add: ok_def)
qed

lemma receive_error_empty:
  "receive n msgs acc = Some (ps, Some e) \<Longrightarrow> ps = []"
proof (induction n msgs acc rule: receive.induct)
  case (1 msgs results)
  then show ?case by simp
next
  case (2 i results)
  then show ?case by simp
next
  case (3 i request msgs results)
  then show ?case by (cases "req_err request") simp_all
qed

lemma receive_success_all:
  "receive n msgs acc = Some (ps, None) \<Longrightarrow>
   n \<le> length msgs \<and> list_all ok (take n msgs) \<and> ps = acc @ map req_price (take n msgs)"
proof (induction n msgs acc arbitrary: ps rule: receive.induct)
  case (1 msgs results)
  then show ?case by simp
next
  case (2 i results)
  then show ?case by simp
next
  case (3 i request msgs results)
  then show ?case by (cases "req_err request") (simp_all add: ok_def)
qed

lemma receive_failed:
  "\<not> list_all ok msgs \<Longrightarrow> length msgs \<le> n \<Longrightarrow> \<exists>e. receive n msgs acc = Some ([], Some e)"
proof (induction n msgs acc rule: receive.induct)
  case (1 msgs results)
  then show ?case by simp
next
  case (2 i results)
  then show ?case by simp
next
  case (3 i request msgs results)
  then show ?case by (cases "req_err request") (simp_all add: ok_def)
qed

lemma receive_more: "receive n msgs acc = Some r \<Longrightarrow> receive n (msgs @ rest) acc = Some r"
proof (induction n msgs acc rule: receive.induct)
  case (1 msgs results)
  then show ?case by simp
next
  case (2 i results)
  then show ?case by simp
next
  case (3 i request msgs results)
  then show ?case by (cases "req_err request") simp_all
qed

subsection \<open>One message per finished goroutine\<close>

lemma sum_list_map_update:
  fixes f :: "'a \<Rightarrow> 'b::comm_monoid_add"
  shows "i < length gs \<Longrightarrow> sum_list (map f (gs[i := g])) + f (gs ! i) = sum_list (map f gs) + f g"
proof (induction gs arbitrary: i)
  case Nil
  then show ?case by simp
next
  case (Cons a gs)
  show ?case
  proof (cases i)
    case 0
    then show ?thesis by (simp add: ac_simps)
  next
    case (Suc j)
    with Cons.prems have "j < length gs" by simp
    from Cons.IH [OF this] Suc show ?thesis
      by (simp add: ac_simps)
  qed
qed

lemma sent_step:
  "length (messages (step i s)) + sum_list (map sent (goroutines s)) =
   length (messages s) + sum_list (map sent (goroutines (step i s)))"
proof (cases "i < length (goroutines s)")
  case False
  then show ?thesis by (simp add: step_def)
next
  case True
  note upd = sum_list_map_update [OF True, of sent]
  show ?thesis
  proof (cases "goroutines s ! i")
    case (AtLookup k)
    with True upd [of "AtFetch k"] upd [of "AtSend r" for r] show ?thesis
      by (auto simp: step_def goto_def sent_def split: option.splits)
  next
    case (AtFetch k)
    with True  upd [of "AtLock k p" for p] upd [of "AtSend r" for r] show ?thesis
      by (auto simp: step_def goto_def sent_def Let_def split: option.splits prod.splits)
  next
    case (AtLock k p)
    with True upd [of "AtWrite k p"] show ?thesis
      by (auto simp: step_def goto_def sent_def)
  next
    case (AtWrite k p)
    with True upd [of "AtUnlock (price p)"] show ?thesis
      by (auto simp: step_def goto_def sent_def)
  next
    case (AtUnlock v)
    with True upd [of "AtSend r" for r] show ?thesis
      by (auto simp: step_def goto_def sent_def)
  next
    case (AtSend r)
    with True upd [of Finished] show ?thesis
      by (auto simp: step_def goto_def sent_def)
  next
    case Finished
    with True show ?thesis by (simp add: step_def)
  qed
qed

lemma sent_exec:
  "length (messages (exec e s)) + sum_list (map sent (goroutines s)) =
   length (messages s) + sum_list (map sent (goroutines (exec e s)))"
  by (cases e) (simp_all add: sent_step)

lemma sent_run:
  "length (messages (run es s)) + sum_list (map sent (goroutines s)) =
   length (messages s) + sum_list (map sent (goroutines (run es s)))"
proof (induction es arbitrary: s)
  case Nil
  show ?case by simp
next
  case (Cons e es)
  from Cons.IH [of "exec e s"] sent_exec [of e s] show ?case by simp
qed

lemma sum_sent_le: "sum_list (map sent gs) \<le> length gs"
  by (induction gs) (simp_all add: sent_def)

lemma sum_sent_all: "sum_list (map sent gs) = length gs \<longleftrightarrow> list_all (\<lambda>g. g = Finished) gs"
proof (induction gs)
  case Nil
  show ?case by simp
next
  case (Cons g gs)
  show ?case
  proof (cases "g = Finished")
    case True
    with Cons show ?thesis by (simp add: sent_def)
  next
    case False
    then have "sent g = 0" by (simp add: sent_def)
    with sum_sent_le [of gs] False show ?thesis by simp
  qed
qed

lemma sent_spawn: "sum_list (map sent (goroutines (spawn w ids))) = 0"
  by (induction ids) (simp_all add: sent_def spawn_simps)

lemma messages_spawn:
  "length (messages (run es (spawn w ids))) = sum_list (map sent (goroutines (run es (spawn w ids))))"
  using sent_run [of es "spawn w ids"] by (simp add: sent_spawn spawn_simps(4))

lemma messages_le: "length (messages (run es (spawn w ids))) \<le> length ids"
  using sum_sent_le [of "goroutines (run es (spawn w ids))"]
  by (simp add: messages_spawn spawn_simps)

lemma messages_all_iff:
  "length (messages (run es (spawn w ids))) = length ids \<longleftrightarrow> finished (run es (spawn w ids))"
  using sum_sent_all [of "goroutines (run es (spawn w ids))"]
  by (simp add: messages_spawn finished_def spawn_simps)

text \<open>Steps only append to the channel.\<close>

lemma messages_step: "prefix (messages s) (messages (step i s))"
  by (simp add: step_def goto_def Let_def split: pc.splits option.splits prod.splits)

lemma messages_exec: "prefix (messages s) (messages (exec e s))"
  by (cases e) (simp_all add: messages_step)

lemma messages_run: "prefix (messages s) (messages (run es s))"
proof (induction es arbitrary: s)
  case Nil
  show ?case by simp
next
  case (Cons e es)
  have "prefix (messages s) (messages (exec e s))" by (rule messages_exec)
  also have "prefix \<dots> (messages (run es (exec e s)))" by (rule Cons.IH)
  finally show ?case by simp
qed

lemma result_stays:
  assumes "fst (GetPricesFor sched w ids) = Some r"
    and "\<not> crashed (run (sched @ rest) (spawn w ids))"
  shows "fst (GetPricesFor (sched @ rest) w ids) = Some r"
proof -
  from messages_run [of "run sched (spawn w ids)" rest]
  obtain ms where "messages (run (sched @ rest) (spawn w ids)) = messages (run sched (spawn w ids)) @ ms"
    by (auto simp: prefix_def run_append)
  with assms show ?thesis
    by (simp add: GetPricesFor_def Let_def receive_more split: if_splits)
qed

lemma batch_result:
  "fst (GetPricesFor sched w ids) =
     (if crashed (run sched (spawn w ids)) then None
      else receive (length ids) (messages (run sched (spawn w ids))) [])"
  by (simp add: GetPricesFor_def Let_def)

text \<open>
  What the receive loop does as long as the process lives: a reported failure gives an
  error and the empty list; all goroutines ended without a failure gives the reported
  prices; a list without an error comes only then; an error never comes with prices.
\<close>

lemma batch_failed:
  assumes "\<not> crashed (run sched (spawn w ids))"
    and "\<not> list_all ok (messages (run sched (spawn w ids)))"
  shows "\<exists>e. fst (GetPricesFor sched w ids) = Some ([], Some e)"
  using receive_failed [OF assms(2) messages_le] assms(1) by (simp add: batch_result)

lemma batch_all_ok:
  assumes "finished (run sched (spawn w ids))"
    and "list_all ok (messages (run sched (spawn w ids)))"
  shows "length (messages (run sched (spawn w ids))) = length ids"
    and "fst (GetPricesFor sched w ids) =
         Some (map req_price (messages (run sched (spawn w ids))), None)"
proof -
  from assms(1) show n: "length (messages (run sched (spawn w ids))) = length ids"
    by (simp add: messages_all_iff)
  with assms(2) receive_all_ok [of "length ids" "messages (run sched (spawn w ids))" "[]"]
    finished_not_crashed [OF assms(1)]
  show "fst (GetPricesFor sched w ids) =
         Some (map req_price (messages (run sched (spawn w ids))), None)"
    by (simp add: batch_result)
qed

lemma batch_success_only:
  assumes "fst (GetPricesFor sched w ids) = Some (ps, None)"
  shows "finished (run sched (spawn w ids))"
    and "list_all ok (messages (run sched (spawn w ids)))"
    and "ps = map req_price (messages (run sched (spawn w ids)))"
proof -
  from assms have r: "receive (length ids) (messages (run sched (spawn w ids))) [] = Some (ps, None)"
    by (simp add: batch_result split: if_splits)
  from receive_success_all [OF r] messages_le [of sched w ids]
  have n: "length (messages (run sched (spawn w ids))) = length ids" by simp
  then show "finished (run sched (spawn w ids))" by (simp add: messages_all_iff)
  from receive_success_all [OF r] n
  show "list_all ok (messages (run sched (spawn w ids)))"
    and "ps = map req_price (messages (run sched (spawn w ids)))"
    by simp_all
qed

lemma batch_error_empty:
  assumes "fst (GetPricesFor sched w ids) = Some (ps, Some e)"
  shows "ps = []"
proof -
  from assms have "receive (length ids) (messages (run sched (spawn w ids))) [] = Some (ps, Some e)"
    by (simp add: batch_result split: if_splits)
  then show ?thesis by (rule receive_error_empty)
qed

lemma batch_returns:
  assumes "finished (run sched (spawn w ids))"
  shows "\<exists>r. fst (GetPricesFor sched w ids) = Some r"
proof (cases "list_all ok (messages (run sched (spawn w ids)))")
  case True
  with assms batch_all_ok(2) show ?thesis by blast
next
  case False
  with batch_failed [OF finished_not_crashed [OF assms]] show ?thesis by blast
qed

lemma batch_returns_unless_killed:
  assumes "\<not> crashed (run sched (spawn w ids))"
  shows "\<exists>rest r. fst (GetPricesFor (sched @ rest) w ids) = Some r"
proof -
  from batch_never_stuck [OF assms]
  obtain rest where "finished (run (sched @ rest) (spawn w ids))" by blast
  then have "\<exists>r. fst (GetPricesFor (sched @ rest) w ids) = Some r"
    by (rule batch_returns)
  then show ?thesis by blast
qed

text \<open>A killed process returns nothing, whatever is scheduled afterwards.\<close>

lemma killed_never_returns:
  assumes "crashed (run sched (spawn w ids))"
  shows "fst (GetPricesFor (sched @ rest) w ids) = None"
proof -
  from assms have "crashed (run rest (run sched (spawn w ids)))" by (rule crashed_run)
  then show ?thesis by (simp add: batch_result run_append)
qed

text \<open>
  C4 does not hold of the code. In the batch \<open>[a, b, a]\<close> the upstream service knows
  both items. Goroutine 0 runs to its end and reports the price of \<open>a\<close>; goroutine 1
  fetches \<open>b\<close> with success, locks the mutex and stands before its write of the store
  (line 54); the read of goroutine 2 (line 60, made without the mutex) overlaps that
  write, on a store that already holds \<open>a\<close>, and the runtime kills the process. No
  lookup has reported a failure, one price has arrived, and the call returns neither a
  price list nor an error, whatever is scheduled afterwards. The lemmas above say what
  the call returns in a process that is not killed.
\<close>

theorem GetPricesFor_killed_before_return:
  "map req_price (messages (run (solo 0 @ [Step 1, Step 1, Step 1, Race 2])
      (spawn emptyWorld [''a'', ''b'', ''a'']))) = [1]
   \<and> list_all ok (messages (run (solo 0 @ [Step 1, Step 1, Step 1, Race 2])
      (spawn emptyWorld [''a'', ''b'', ''a''])))
   \<and> goroutines (run (solo 0 @ [Step 1, Step 1, Step 1]) (spawn emptyWorld [''a'', ''b'', ''a'']))
       = [Finished, AtWrite ''b'' \<lparr>price = 2, creationDate = 0\<rparr>, AtLookup ''a'']
   \<and> crashed (run (solo 0 @ [Step 1, Step 1, Step 1, Race 2])
      (spawn emptyWorld [''a'', ''b'', ''a'']))
   \<and> fst (GetPricesFor ((solo 0 @ [Step 1, Step 1, Step 1, Race 2]) @ rest)
        emptyWorld [''a'', ''b'', ''a'']) = None"
proof -
  have dead: "crashed (run (solo 0 @ [Step 1, Step 1, Step 1, Race 2])
      (spawn emptyWorld [''a'', ''b'', ''a'']))"
    by code_simp
  have "map req_price (messages (run (solo 0 @ [Step 1, Step 1, Step 1, Race 2])
      (spawn emptyWorld [''a'', ''b'', ''a'']))) = [1]"
    by code_simp
  moreover have "list_all ok (messages (run (solo 0 @ [Step 1, Step 1, Step 1, Race 2])
      (spawn emptyWorld [''a'', ''b'', ''a''])))"
    by code_simp
  moreover have "goroutines (run (solo 0 @ [Step 1, Step 1, Step 1])
      (spawn emptyWorld [''a'', ''b'', ''a'']))
       = [Finished, AtWrite ''b'' \<lparr>price = 2, creationDate = 0\<rparr>, AtLookup ''a'']"
    by code_simp
  moreover note dead killed_never_returns [OF dead, of rest]
  ultimately show ?thesis by blast
qed

subsection \<open>Upstream calls of a batch\<close>

lemma budget_step: "budget (step i s) \<subseteq># budget s"
proof (cases "i < length (goroutines s)")
  case False
  then show ?thesis by (simp add: step_def)
next
  case True
  note upd = sum_list_map_update [OF True, of pending]
  show ?thesis
  proof (cases "goroutines s ! i")
    case (AtLookup k)
    show ?thesis
    proof (cases "freshPrice (world s) k")
      case None
      with True AtLookup upd [of "AtFetch k"] show ?thesis
        by (simp add: step_def goto_def budget_def pending_def)
    next
      case (Some p)
      define g where "g = AtSend \<lparr>req_price = price p, req_err = None\<rparr>"
      have "sum_list (map pending ((goroutines s)[i := g]))
            \<subseteq># add_mset k (sum_list (map pending ((goroutines s)[i := g])))"
        by simp
      also have "\<dots> = sum_list (map pending (goroutines s))"
        using upd [of g] AtLookup by (simp add: pending_def g_def)
      finally show ?thesis
        using True AtLookup Some by (simp add: step_def goto_def budget_def g_def)
    qed
  next
    case (AtFetch k)
    obtain v err where svc: "actualPriceService (cache (world s)) (calls (world s)) k = (v, err)"
      by (cases "actualPriceService (cache (world s)) (calls (world s)) k")
    have eq: "sum_list (map pending (goroutines s)) =
        add_mset k (sum_list (map pending ((goroutines s)[i := g])))" if "pending g = {#}" for g
      using upd [of g] AtFetch that by (simp add: pending_def)
    show ?thesis
    proof (cases err)
      case None
      have "pending (AtLock k \<lparr>price = v, creationDate = clock (world s)\<rparr>) = {#}"
        by (simp add: pending_def)
      from eq [OF this] True AtFetch svc None show ?thesis
        by (simp add: step_def goto_def budget_def Let_def)
    next
      case (Some e)
      have "pending (AtSend \<lparr>req_price = 0, req_err = Some (wrapError e)\<rparr>) = {#}"
        by (simp add: pending_def)
      from eq [OF this] True AtFetch svc Some show ?thesis
        by (simp add: step_def goto_def budget_def Let_def)
    qed
  next
    case (AtLock k p)
    with True upd [of "AtWrite k p"] show ?thesis
      by (simp add: step_def goto_def budget_def pending_def)
  next
    case (AtWrite k p)
    with True upd [of "AtUnlock (price p)"] show ?thesis
      by (simp add: step_def goto_def budget_def pending_def storePrice_def)
  next
    case (AtUnlock v)
    with True upd [of "AtSend \<lparr>req_price = v, req_err = None\<rparr>"] show ?thesis
      by (simp add: step_def goto_def budget_def pending_def)
  next
    case (AtSend r)
    with True upd [of Finished] show ?thesis
      by (simp add: step_def goto_def budget_def pending_def)
  next
    case Finished
    with True show ?thesis by (simp add: step_def)
  qed
qed

lemma budget_exec: "budget (exec e s) \<subseteq># budget s"
  by (cases e) (simp_all add: budget_step, simp_all add: budget_def)

lemma budget_run: "budget (run es s) \<subseteq># budget s"
proof (induction es arbitrary: s)
  case Nil
  show ?case by simp
next
  case (Cons e es)
  have "budget (run es (exec e s)) \<subseteq># budget (exec e s)" by (rule Cons.IH)
  also have "\<dots> \<subseteq># budget s" by (rule budget_exec)
  finally show ?case by simp
qed

lemma calls_step: "prefix (calls (world s)) (calls (world (step i s)))"
  by (simp add: step_def goto_def Let_def storePrice_def split: pc.splits option.splits prod.splits)

lemma calls_exec: "prefix (calls (world s)) (calls (world (exec e s)))"
  by (cases e) (simp_all add: calls_step)

lemma calls_run: "prefix (calls (world s)) (calls (world (run es s)))"
proof (induction es arbitrary: s)
  case Nil
  show ?case by simp
next
  case (Cons e es)
  have "prefix (calls (world s)) (calls (world (exec e s)))" by (rule calls_exec)
  also have "prefix \<dots> (calls (world (run es (exec e s))))" by (rule Cons.IH)
  finally show ?case by simp
qed

lemma pending_spawn: "sum_list (map pending (goroutines (spawn w ids))) = mset ids"
  by (induction ids) (simp_all add: pending_def spawn_simps)

text \<open>
  An item code that is not fresh before the batch is fetched at least once by the time
  all goroutines have ended.
\<close>

lemma drop_calls_step:
  "a \<in> set (drop n (calls (world s))) \<Longrightarrow> a \<in> set (drop n (calls (world (step i s))))"
  using calls_step [of s i] by (auto simp: prefix_def)

lemma unfetched_step:
  assumes stale: "freshPrice w a = None" and inv: "unfetched w ids a s"
  shows "unfetched w ids a (step i s)"
proof (cases "a \<in> set (drop (length (calls w)) (calls (world s)))")
  case True
  from inv have "prefix (calls w) (calls (world s))" by (simp add: unfetched_def)
  also have "prefix \<dots> (calls (world (step i s)))" by (rule calls_step)
  finally show ?thesis using True by (simp add: unfetched_def drop_calls_step)
next
  case False
  from inv have pf: "prefix (calls w) (calls (world s))" by (simp add: unfetched_def)
  from False inv have pr: "prices (cache (world s)) a = prices (cache w) a"
    and ma: "maxAge (cache (world s)) = maxAge (cache w)"
    and cl: "clock w \<le> clock (world s)"
    and len: "length (goroutines s) = length ids"
    and wt: "\<And>j. j < length ids \<Longrightarrow> waiting a (ids ! j) (goroutines s ! j)"
    by (simp_all add: unfetched_def)
  show ?thesis
  proof (cases "i < length (goroutines s)")
    case False
    with inv show ?thesis by (simp add: step_def)
  next
    case True
    with len wt have wi: "waiting a (ids ! i) (goroutines s ! i)" by simp
    have keep: "unfetched w ids a (goto i g s')"
      if "waiting a (ids ! i) g" "world s' = world s" "goroutines s' = goroutines s" for g s'
      using that pr ma cl len wt True pf
      by (simp add: unfetched_def nth_list_update)
    show ?thesis
    proof (cases "goroutines s ! i")
      case (AtLookup k)
      with wi have k: "k = ids ! i" by (simp add: waiting_def owns_def)
      show ?thesis
      proof (cases "k = a")
        case True
        from stale pr ma cl have "freshPrice (world s) a = None"
          by (rule freshPrice_None_later)
        with True AtLookup \<open>i < length (goroutines s)\<close> k show ?thesis
          by (simp add: step_at keep waiting_def owns_def)
      next
        case False
        with AtLookup \<open>i < length (goroutines s)\<close> k show ?thesis
          by (cases "freshPrice (world s) k") (simp_all add: step_at keep waiting_def owns_def)
      qed
    next
      case (AtFetch k)
      with wi have k: "k = ids ! i" by (simp add: waiting_def owns_def)
      obtain v err where svc: "actualPriceService (cache (world s)) (calls (world s)) k = (v, err)"
        by (cases "actualPriceService (cache (world s)) (calls (world s)) k")
      show ?thesis
      proof (cases "k = a")
        case True
        from pf have "length (calls w) \<le> length (calls (world s))"
          by (rule prefix_length_le)
        with pf True AtFetch \<open>i < length (goroutines s)\<close> svc show ?thesis
          by (simp add: step_AtFetch unfetched_def)
      next
        case False
        with AtFetch \<open>i < length (goroutines s)\<close> k svc pr ma cl len wt pf show ?thesis
          by (cases err) (simp_all add: step_AtFetch unfetched_def nth_list_update waiting_def owns_def)
      qed
    next
      case (AtLock k p)
      with wi have k: "k = ids ! i" "k \<noteq> a" by (auto simp: waiting_def owns_def)
      with AtLock \<open>i < length (goroutines s)\<close> inv show ?thesis
        by (simp add: step_at keep waiting_def owns_def)
    next
      case (AtWrite k p)
      with wi have k: "k = ids ! i" "k \<noteq> a" by (auto simp: waiting_def owns_def)
      with AtWrite \<open>i < length (goroutines s)\<close> pr ma cl len wt pf show ?thesis
        by (simp add: step_at unfetched_def nth_list_update waiting_def owns_def storePrice_def)
    next
      case (AtUnlock v)
      with wi have k: "ids ! i \<noteq> a" by (auto simp: waiting_def owns_def)
      with AtUnlock \<open>i < length (goroutines s)\<close> show ?thesis
        by (simp add: step_at keep waiting_def owns_def)
    next
      case (AtSend r)
      with wi have k: "ids ! i \<noteq> a" by (auto simp: waiting_def owns_def)
      with AtSend \<open>i < length (goroutines s)\<close> show ?thesis
        by (simp add: step_at keep waiting_def owns_def)
    next
      case Finished
      with \<open>i < length (goroutines s)\<close> inv show ?thesis by (simp add: step_at)
    qed
  qed
qed

lemma unfetched_exec:
  assumes "freshPrice w a = None" and "unfetched w ids a s"
  shows "unfetched w ids a (exec e s)"
proof (cases e)
  case (Step i)
  with assms show ?thesis by (simp add: unfetched_step)
next
  case (Tick d)
  with assms(2) show ?thesis by (auto simp: unfetched_def)
next
  case (Race i)
  with assms(2) show ?thesis by (simp add: unfetched_def)
qed

lemma unfetched_run:
  "freshPrice w a = None \<Longrightarrow> unfetched w ids a s \<Longrightarrow> unfetched w ids a (run es s)"
  by (induction es arbitrary: s) (simp_all add: unfetched_exec)

lemma unfetched_spawn: "unfetched w ids a (spawn w ids)"
  by (simp add: unfetched_def spawn_simps waiting_def owns_def)

lemma stale_item_is_fetched:
  assumes "freshPrice w a = None" and "a \<in> set ids"
    and "finished (run sched (spawn w ids))"
  shows "a \<in> set (drop (length (calls w)) (calls (world (run sched (spawn w ids)))))"
proof (rule ccontr)
  assume no: "\<not> ?thesis"
  define s where "s = run sched (spawn w ids)"
  from assms(1) unfetched_spawn have "unfetched w ids a s"
    unfolding s_def by (rule unfetched_run)
  with no have len: "length (goroutines s) = length ids"
    and wt: "\<And>j. j < length ids \<Longrightarrow> waiting a (ids ! j) (goroutines s ! j)"
    by (simp_all add: unfetched_def s_def)
  from assms(2) obtain j where j: "j < length ids" "ids ! j = a"
    by (auto simp: in_set_conv_nth)
  with wt [of j] have "goroutines s ! j = AtLookup a \<or> goroutines s ! j = AtFetch a"
    by (simp add: waiting_def)
  moreover from assms(3) j len have "goroutines s ! j = Finished"
    by (simp add: finished_def s_def list_all_length)
  ultimately show False by simp
qed

text \<open>
  C8, as the claim states it, fails: \<open>a\<close> is not in the cache before the batch
  \<open>[a, a]\<close>, the goroutines run one after the other, both lookups succeed, and the
  upstream service is called once, not once per occurrence: the second goroutine finds
  the entry the first one stored.
\<close>

theorem GetPricesFor_duplicate_counterexample:
  "freshPrice emptyWorld ''a'' = None
   \<and> finished (run (inOrder 2) (spawn emptyWorld [''a'', ''a'']))
   \<and> fst (GetPricesFor (inOrder 2) emptyWorld [''a'', ''a'']) = Some ([1, 1], None)
   \<and> calls (snd (GetPricesFor (inOrder 2) emptyWorld [''a'', ''a''])) = [''a'']"
  by code_simp

lemma duplicate_fetched_twice:
  "calls (snd (GetPricesFor ([Step 0, Step 1] @ inOrder 2) emptyWorld [''a'', ''a'']))
     = [''a'', ''a'']"
  by code_simp

text \<open>
  C8, amended. A batch call starts one goroutine per requested item code, duplicates
  included, each at the lookup of its own item code. Under every schedule the upstream
  calls the batch adds to the log are at most one per occurrence of an item code in
  the request; and once all goroutines have ended, every requested item code that was
  not fresh in the cache before the batch has been fetched at least once.
\<close>

theorem GetPricesFor_one_unit_per_item:
  "goroutines (spawn w itemCodes) = map AtLookup itemCodes
   \<and> (\<exists>new. calls (snd (GetPricesFor sched w itemCodes)) = calls w @ new
         \<and> mset new \<subseteq># mset itemCodes
         \<and> (finished (run sched (spawn w itemCodes)) \<longrightarrow>
              (\<forall>a \<in> set itemCodes. freshPrice w a = None \<longrightarrow> a \<in> set new)))"
proof -
  from calls_run [of "spawn w itemCodes" sched]
  obtain new where new: "calls (world (run sched (spawn w itemCodes))) = calls w @ new"
    by (auto simp: prefix_def spawn_simps)
  from budget_run [of sched "spawn w itemCodes"]
  have "mset (calls w @ new) + sum_list (map pending (goroutines (run sched (spawn w itemCodes))))
        \<subseteq># mset (calls w) + mset itemCodes"
    by (simp add: budget_def new pending_spawn spawn_simps(1))
  then have most: "mset new \<subseteq># mset itemCodes"
    by (simp add: subset_mset.add_left_mono) (meson mset_subset_eq_add_left subset_mset.order_trans)
  have least: "a \<in> set new"
    if "finished (run sched (spawn w itemCodes))" "a \<in> set itemCodes" "freshPrice w a = None"
    for a
    using stale_item_is_fetched [OF that(3,2,1)] by (simp add: new)
  from new most least show ?thesis
    by (auto simp: GetPricesFor_def Let_def spawn_simps)
qed

theorem GetPricesFor_one_unit_per_item_witness:
  "finished (run (inOrder 2) (spawn emptyWorld [''a'', ''a'']))
   \<and> freshPrice emptyWorld ''a'' = None
   \<and> ''a'' \<in> set (calls (snd (GetPricesFor (inOrder 2) emptyWorld [''a'', ''a''])))
   \<and> length (calls (snd (GetPricesFor (inOrder 2) emptyWorld [''a'', ''a'']))) \<le> 2"
proof -
  have fin: "finished (run (inOrder 2) (spawn emptyWorld [''a'', ''a'']))"
    by code_simp
  have stale: "freshPrice emptyWorld ''a'' = None"
    by (rule miss_emptyWorld)
  have none: "calls emptyWorld = []"
    by (simp add: emptyWorld_def)
  from GetPricesFor_one_unit_per_item [of emptyWorld "[''a'', ''a'']" "inOrder 2"] fin stale
  obtain new where new: "calls (snd (GetPricesFor (inOrder 2) emptyWorld [''a'', ''a''])) = new"
    and most: "mset new \<subseteq># mset [''a'', ''a'']" and least: "''a'' \<in> set new"
    by (auto simp: none)
  from most have "size (mset new) \<le> size (mset [''a'', ''a''])"
    by (rule size_mset_mono)
  with fin stale new least show ?thesis by simp
qed

subsection \<open>The keys of the store\<close>

lemma dom_step: "dom (prices (cache (world s))) \<subseteq> dom (prices (cache (world (step i s))))"
  by (auto simp: step_def goto_def Let_def storePrice_def split: pc.splits option.splits prod.splits)

lemma dom_exec: "dom (prices (cache (world s))) \<subseteq> dom (prices (cache (world (exec e s))))"
  using dom_step by (cases e) simp_all

lemma dom_run: "dom (prices (cache (world s))) \<subseteq> dom (prices (cache (world (run es s))))"
proof (induction es arbitrary: s)
  case Nil
  show ?case by simp
next
  case (Cons e es)
  have "dom (prices (cache (world s))) \<subseteq> dom (prices (cache (world (exec e s))))"
    by (rule dom_exec)
  also have "\<dots> \<subseteq> dom (prices (cache (world (run es (exec e s)))))"
    by (rule Cons.IH)
  finally show ?case by simp
qed

lemma targets_update:
  assumes "i < length gs" and "target g \<subseteq> target (gs ! i)"
  shows "(\<Union>x \<in> set (gs[i := g]). target x) \<subseteq> (\<Union>x \<in> set gs. target x)"
proof -
  from assms(1) have "gs ! i \<in> set gs" by simp
  with assms(2) have "target g \<subseteq> (\<Union>x \<in> set gs. target x)" by blast
  moreover have "set (gs[i := g]) \<subseteq> insert g (set gs)"
    by (rule set_update_subset_insert)
  ultimately show ?thesis by blast
qed

lemma reach_goto:
  assumes "i < length (goroutines s)" and "target g \<subseteq> target (goroutines s ! i)"
    and "dom (prices (cache (world s'))) \<subseteq> dom (prices (cache (world s))) \<union> target (goroutines s ! i)"
    and "goroutines s' = goroutines s"
  shows "reach (goto i g s') \<subseteq> reach s"
proof -
  from assms(1) have "goroutines s ! i \<in> set (goroutines s)" by simp
  then have "target (goroutines s ! i) \<subseteq> (\<Union>x \<in> set (goroutines s). target x)" by blast
  with assms(3) have "dom (prices (cache (world s'))) \<subseteq> reach s"
    unfolding reach_def by blast
  moreover from targets_update [OF assms(1,2)]
  have "(\<Union>x \<in> set ((goroutines s)[i := g]). target x) \<subseteq> reach s"
    unfolding reach_def by blast
  ultimately show ?thesis
    by (simp add: reach_def goto_def assms(4))
qed

lemma reach_step: "reach (step i s) \<subseteq> reach s"
proof (cases "i < length (goroutines s)")
  case False
  then show ?thesis by (simp add: step_def)
next
  case True
  have go: "reach (goto i g s') \<subseteq> reach s"
    if "target g \<subseteq> target (goroutines s ! i)"
      and "dom (prices (cache (world s'))) \<subseteq> dom (prices (cache (world s))) \<union> target (goroutines s ! i)"
      and "goroutines s' = goroutines s" for g s'
    using True that by (rule reach_goto)
  show ?thesis
  proof (cases "goroutines s ! i")
    case (AtLookup k)
    have "reach (goto i g s) \<subseteq> reach s" if "target g \<subseteq> {k}" for g
      using that by (intro go) (auto simp: AtLookup target_def)
    with True AtLookup show ?thesis
      by (cases "freshPrice (world s) k") (simp_all add: step_def target_def)
  next
    case (AtFetch k)
    obtain v err where svc: "actualPriceService (cache (world s)) (calls (world s)) k = (v, err)"
      by (cases "actualPriceService (cache (world s)) (calls (world s)) k")
    have "reach (goto i g (s\<lparr>world := (world s)\<lparr>calls := calls (world s) @ [k]\<rparr>\<rparr>)) \<subseteq> reach s"
      if "target g \<subseteq> {k}" for g
      using that by (intro go) (auto simp: AtFetch target_def)
    with True AtFetch svc show ?thesis
      by (cases err) (simp_all add: step_def Let_def target_def)
  next
    case (AtLock k p)
    have "reach (goto i (AtWrite k p) (s\<lparr>mutex := Some i\<rparr>)) \<subseteq> reach s"
      by (intro go) (auto simp: AtLock target_def)
    with True AtLock show ?thesis
      by (simp add: step_def)
  next
    case (AtWrite k p)
    have "reach (goto i (AtUnlock (price p)) (s\<lparr>world := storePrice (world s) k p\<rparr>)) \<subseteq> reach s"
      by (intro go) (auto simp: AtWrite target_def storePrice_def)
    with True AtWrite show ?thesis
      by (simp add: step_def)
  next
    case (AtUnlock v)
    have "reach (goto i g (s\<lparr>mutex := None\<rparr>)) \<subseteq> reach s" if "target g = {}" for g
      using that by (intro go) auto
    with True AtUnlock show ?thesis
      by (simp add: step_def target_def)
  next
    case (AtSend r)
    have "reach (goto i Finished (s\<lparr>messages := messages s @ [r]\<rparr>)) \<subseteq> reach s"
      by (intro go) (auto simp: target_def)
    with True AtSend show ?thesis
      by (simp add: step_def)
  next
    case Finished
    with True show ?thesis by (simp add: step_def)
  qed
qed

lemma reach_exec: "reach (exec e s) \<subseteq> reach s"
  by (cases e) (simp_all add: reach_step, simp_all add: reach_def)

lemma reach_run: "reach (run es s) \<subseteq> reach s"
proof (induction es arbitrary: s)
  case Nil
  show ?case by simp
next
  case (Cons e es)
  have "reach (run es (exec e s)) \<subseteq> reach (exec e s)" by (rule Cons.IH)
  also have "\<dots> \<subseteq> reach s" by (rule reach_exec)
  finally show ?case by simp
qed

lemma reach_spawn: "reach (spawn w ids) = dom (prices (cache w)) \<union> set ids"
  by (auto simp: reach_def spawn_simps target_def)

text \<open>
  C9. The store of a new cache is empty. A single lookup leaves the key set as it was,
  but for the item code it inserts when it fetched with success. A batch call, under
  every schedule, loses no key and gains none but requested item codes.
\<close>

theorem store_keys_only_grow:
  "prices (NewTransparentCache svc age) = Map.empty
   \<and> dom (prices (cache (snd (GetPriceFor d w itemCode)))) =
       (if freshPrice w itemCode = None
           \<and> snd (actualPriceService (cache w) (calls w) itemCode) = None
        then insert itemCode (dom (prices (cache w))) else dom (prices (cache w)))
   \<and> dom (prices (cache w)) \<subseteq> dom (prices (cache (snd (GetPricesFor sched w itemCodes))))
   \<and> dom (prices (cache (snd (GetPricesFor sched w itemCodes))))
       \<subseteq> dom (prices (cache w)) \<union> set itemCodes"
proof -
  have a: "prices (NewTransparentCache svc age) = Map.empty"
    by (simp add: NewTransparentCache_def)
  have b: "dom (prices (cache (snd (GetPriceFor d w itemCode)))) =
       (if freshPrice w itemCode = None
           \<and> snd (actualPriceService (cache w) (calls w) itemCode) = None
        then insert itemCode (dom (prices (cache w))) else dom (prices (cache w)))"
    by (cases "actualPriceService (cache w) (calls w) itemCode")
       (auto simp: GetPriceFor_def Let_def sequentialPriceSet_def storePrice_def
             split: option.splits)
  have c: "dom (prices (cache w)) \<subseteq> dom (prices (cache (snd (GetPricesFor sched w itemCodes))))"
    using dom_run [of "spawn w itemCodes" sched]
    by (simp add: GetPricesFor_def Let_def spawn_simps)
  have "dom (prices (cache (world (run sched (spawn w itemCodes)))))
        \<subseteq> reach (run sched (spawn w itemCodes))"
    by (simp add: reach_def)
  also have "\<dots> \<subseteq> reach (spawn w itemCodes)" by (rule reach_run)
  finally have d: "dom (prices (cache (snd (GetPricesFor sched w itemCodes))))
       \<subseteq> dom (prices (cache w)) \<union> set itemCodes"
    by (simp add: GetPricesFor_def Let_def reach_spawn)
  from a b c d show ?thesis by blast
qed

subsection \<open>Timestamps in a batch\<close>

lemma stamped_sys_goto:
  assumes "stamped_sys s" and "stamped (world s')" and "clock (world s') = clock (world s)"
    and "goroutines s' = goroutines s"
    and "\<And>p. carried g = Some p \<Longrightarrow> creationDate p \<le> clock (world s)"
  shows "stamped_sys (goto i g s')"
proof -
  have "set ((goroutines s)[i := g]) \<subseteq> insert g (set (goroutines s))"
    by (rule set_update_subset_insert)
  with assms show ?thesis
    by (auto simp: stamped_sys_def)
qed

lemma stamped_sys_step:
  assumes inv: "stamped_sys s"
  shows "stamped_sys (step i s)"
proof (cases "i < length (goroutines s)")
  case False
  with inv show ?thesis by (simp add: step_def)
next
  case True
  then have mem: "goroutines s ! i \<in> set (goroutines s)" by simp
  from inv have st: "stamped (world s)" by (simp add: stamped_sys_def)
  note go = stamped_sys_goto [OF inv]
  show ?thesis
  proof (cases "goroutines s ! i")
    case (AtLookup k)
    with True st show ?thesis
      by (cases "freshPrice (world s) k") (auto simp: step_at carried_def intro!: go)
  next
    case (AtFetch k)
    obtain v err where svc: "actualPriceService (cache (world s)) (calls (world s)) k = (v, err)"
      by (cases "actualPriceService (cache (world s)) (calls (world s)) k")
    have "stamped ((world s)\<lparr>calls := calls (world s) @ [k]\<rparr>)"
      using st by (rule stamped_later) simp_all
    with AtFetch True svc show ?thesis
      by (cases err) (auto simp: step_AtFetch carried_def intro!: go)
  next
    case (AtLock k p)
    with inv mem have "creationDate p \<le> clock (world s)"
      by (auto simp: stamped_sys_def carried_def)
    with AtLock True st inv show ?thesis
      by (auto simp: step_at carried_def intro!: go)
  next
    case (AtWrite k p)
    with inv mem have "creationDate p \<le> clock (world s)"
      by (auto simp: stamped_sys_def carried_def)
    with st have "stamped (storePrice (world s) k p)" by (rule stamped_store)
    with AtWrite True show ?thesis
      by (auto simp: step_at carried_def storePrice_def intro!: go)
  next
    case (AtUnlock v)
    with True st show ?thesis
      by (auto simp: step_at carried_def intro!: go)
  next
    case (AtSend r)
    with True st show ?thesis
      by (auto simp: step_at carried_def intro!: go)
  next
    case Finished
    with True inv show ?thesis by (simp add: step_at)
  qed
qed

lemma stamped_sys_exec: "stamped_sys s \<Longrightarrow> stamped_sys (exec e s)"
proof (cases e)
  case (Step i)
  assume "stamped_sys s"
  with Step show ?thesis by (simp add: stamped_sys_step)
next
  case (Tick d)
  assume inv: "stamped_sys s"
  then have "stamped (world s)" by (simp add: stamped_sys_def)
  then have "stamped ((world s)\<lparr>clock := clock (world s) + int d\<rparr>)"
    by (rule stamped_later) simp_all
  with inv Tick show ?thesis
    by (fastforce simp: stamped_sys_def)
next
  case (Race i)
  assume "stamped_sys s"
  with Race show ?thesis by (simp add: stamped_sys_def)
qed

lemma stamped_sys_run: "stamped_sys s \<Longrightarrow> stamped_sys (run es s)"
  by (induction es arbitrary: s) (simp_all add: stamped_sys_exec)

lemma stamped_GetPricesFor:
  assumes "stamped w"
  shows "stamped (snd (GetPricesFor sched w ids))"
proof -
  from assms have "stamped_sys (spawn w ids)"
    by (simp add: stamped_sys_def spawn_simps carried_def)
  then have "stamped_sys (run sched (spawn w ids))" by (rule stamped_sys_run)
  then show ?thesis by (simp add: stamped_sys_def GetPricesFor_def Let_def)
qed

subsection \<open>Two defects of the batch call\<close>

text \<open>
  C1 does not hold of the code. Item \<open>a\<close> costs 1 and item \<open>b\<close> costs 2; when the
  goroutine of \<open>b\<close> sends before the goroutine of \<open>a\<close>, the batch \<open>[a, b]\<close> returns
  \<open>[2, 1]\<close>: the receive loop appends the prices in the order of arrival.
\<close>

theorem GetPricesFor_completion_order:
  "fst (GetPriceFor 0 emptyWorld ''a'') = (1, None)
   \<and> fst (GetPriceFor 0 emptyWorld ''b'') = (2, None)
   \<and> fst (GetPricesFor (solo 1 @ solo 0) emptyWorld [''a'', ''b'']) = Some ([2, 1], None)"
  by code_simp

text \<open>
  C2 does not hold of the code. In the batch \<open>[a, b]\<close>, after three steps goroutine 0
  holds the mutex and stands before its write of the store (line 54); goroutine 1 then
  takes its step at line 60, the read of the store, without the mutex: it moves on to
  its upstream call while goroutine 0 still holds the mutex before the write.
\<close>

theorem lookup_reads_store_without_mutex:
  "mutex (run [Step 0, Step 0, Step 0] (spawn emptyWorld [''a'', ''b''])) = Some 0
   \<and> goroutines (run [Step 0, Step 0, Step 0] (spawn emptyWorld [''a'', ''b'']))
       = [AtWrite ''a'' \<lparr>price = 1, creationDate = 0\<rparr>, AtLookup ''b'']
   \<and> mutex (run [Step 0, Step 0, Step 0, Step 1] (spawn emptyWorld [''a'', ''b''])) = Some 0
   \<and> goroutines (run [Step 0, Step 0, Step 0, Step 1] (spawn emptyWorld [''a'', ''b'']))
       = [AtWrite ''a'' \<lparr>price = 1, creationDate = 0\<rparr>, AtFetch ''b'']"
  by code_simp

end
